theory Spec2Isabelle
  imports Main
begin

section \<open>The Rust Analyzer bridge of the playground\<close>

text \<open>
  The development follows the module that connects the editor to the Rust Analyzer
  web worker: \<^verbatim>\<open>createWorker\<close> with its call channel and proxy, the crate
  loader \<^verbatim>\<open>loadDependency\<close> with the cache \<^verbatim>\<open>cachedNames\<close>, and the
  \<^verbatim>\<open>update\<close> function that runs on every change of the model.
\<close>

subsection \<open>The call channel of \<^verbatim>\<open>createWorker\<close>\<close>

text \<open>
  The value of \<^verbatim>\<open>ev.data.id\<close> of an inbound message: the string
  \<^verbatim>\<open>"ra-worker-ready"\<close> or the number of a call. Numbers are naturals: the
  counter starts at 1 and only grows by 1, and JavaScript numbers are exact on
  such integers far beyond the number of calls of a session.
\<close>

datatype ev_id = RaWorkerReady | IdNum nat

text \<open>
  The closure state of \<^verbatim>\<open>createWorker\<close>: the object \<^verbatim>\<open>pendingResolve\<close>
  and the counter \<^verbatim>\<open>id\<close>, together with what the closure has done so far: the
  messages given to \<^verbatim>\<open>worker.postMessage\<close> (method, args, id), the calls
  \<^verbatim>\<open>pending(ev.data.result)\<close> of stored resolvers, and the number of calls
  \<^verbatim>\<open>resolve(new Proxy({}, proxyHandler))\<close>. A resolver \<open>'r\<close> is the
  \<^verbatim>\<open>res\<close> function of the promise that \<^verbatim>\<open>callWorker\<close> creates.
\<close>

record ('a, 'r, 'v) channel =
  pendingResolve :: "nat \<rightharpoonup> 'r"
  id_n :: nat
  posted :: "(string \<times> 'a list \<times> nat) list"
  resolved :: "('r \<times> 'v) list"
  proxies :: nat

definition createWorker :: "('a, 'r, 'v) channel" where
  "createWorker =
     \<lparr>pendingResolve = Map.empty, id_n = 1, posted = [], resolved = [], proxies = 0\<rparr>"

definition callWorker ::
  "string \<Rightarrow> 'a list \<Rightarrow> 'r \<Rightarrow> ('a, 'r, 'v) channel \<Rightarrow> ('a, 'r, 'v) channel" where
  "callWorker method args res c =
     c\<lparr>pendingResolve := (pendingResolve c)(id_n c \<mapsto> res),
       posted := posted c @ [(method, args, id_n c)],
       id_n := id_n c + 1\<rparr>"

definition onmessage ::
  "ev_id \<Rightarrow> 'v \<Rightarrow> ('a, 'r, 'v) channel \<Rightarrow> ('a, 'r, 'v) channel" where
  "onmessage ev_data_id ev_data_result c =
     (if ev_data_id = RaWorkerReady then c\<lparr>proxies := proxies c + 1\<rparr>
      else case ev_data_id of
        IdNum i \<Rightarrow>
          (case pendingResolve c i of
             Some pending \<Rightarrow>
               c\<lparr>resolved := resolved c @ [(pending, ev_data_result)],
                 pendingResolve := (pendingResolve c)(i := None)\<rparr>
           | None \<Rightarrow> c)
      | RaWorkerReady \<Rightarrow> c)"

text \<open>
  The \<^verbatim>\<open>get\<close> trap of \<^verbatim>\<open>proxyHandler\<close>. For \<^verbatim>\<open>"then"\<close> it returns
  \<^verbatim>\<open>Reflect.get(target, prop, receiver)\<close> on the empty target, which is
  \<^verbatim>\<open>undefined\<close> (\<open>None\<close>); for every other property it returns a function
  that passes the property name and its arguments to \<^verbatim>\<open>callWorker\<close>.
\<close>

definition proxyHandler_get ::
  "string \<Rightarrow> ('a list \<Rightarrow> 'r \<Rightarrow> ('a, 'r, 'v) channel \<Rightarrow> ('a, 'r, 'v) channel) option" where
  "proxyHandler_get prop =
     (if prop = ''then'' then None else Some (\<lambda>args. callWorker prop args))"

datatype js_error = TypeError

text \<open>
  A method call \<^verbatim>\<open>proxy.prop(...args)\<close>: calling \<^verbatim>\<open>undefined\<close> throws a
  \<^verbatim>\<open>TypeError\<close> and leaves the channel as it was.
\<close>

definition proxy_call ::
  "string \<Rightarrow> 'a list \<Rightarrow> 'r \<Rightarrow> ('a, 'r, 'v) channel \<Rightarrow> js_error + ('a, 'r, 'v) channel" where
  "proxy_call prop args res c =
     (case proxyHandler_get prop of
        None \<Rightarrow> Inl TypeError
      | Some f \<Rightarrow> Inr (f args res c))"

text \<open>
  What happens to a channel during a session: calls of \<^verbatim>\<open>callWorker\<close> and
  deliveries of worker messages to \<^verbatim>\<open>worker.onmessage\<close>, in any interleaving.
\<close>

datatype ('a, 'r, 'v) event =
    Call string "'a list" 'r
  | Message ev_id 'v

fun step :: "('a, 'r, 'v) event \<Rightarrow> ('a, 'r, 'v) channel \<Rightarrow> ('a, 'r, 'v) channel" where
  "step (Call method args res) c = callWorker method args res c"
| "step (Message i result) c = onmessage i result c"

fun run :: "('a, 'r, 'v) channel \<Rightarrow> ('a, 'r, 'v) event list \<Rightarrow> ('a, 'r, 'v) channel" where
  "run c [] = c"
| "run c (e # es) = run (step e c) es"

fun resolvers :: "('a, 'r, 'v) event list \<Rightarrow> 'r list" where
  "resolvers [] = []"
| "resolvers (Call method args res # es) = res # resolvers es"
| "resolvers (Message i result # es) = resolvers es"

fun replies_to :: "nat \<Rightarrow> ('a, 'r, 'v) event list \<Rightarrow> 'v list" where
  "replies_to i [] = []"
| "replies_to i (Call method args res # es) = replies_to i es"
| "replies_to i (Message j result # es) =
     (if j = IdNum i then result # replies_to i es else replies_to i es)"

definition calls_of :: "'r \<Rightarrow> ('r \<times> 'v) list \<Rightarrow> 'v list" where
  "calls_of res log = map snd (filter (\<lambda>p. fst p = res) log)"

definition issued_ids :: "('a, 'r, 'v) channel \<Rightarrow> nat list" where
  "issued_ids c = map (\<lambda>m. snd (snd m)) (posted c)"

text \<open>
  JavaScript's \<^verbatim>\<open>a > b\<close> on two values that \<^verbatim>\<open>ev.data.id\<close> can have. Two
  numbers are compared as numbers. Beside a number the string
  \<^verbatim>\<open>"ra-worker-ready"\<close> is converted to a number, which gives \<^verbatim>\<open>NaN\<close>, and
  every comparison with \<^verbatim>\<open>NaN\<close> is false; the string is not greater than itself.
\<close>

fun js_greater :: "ev_id \<Rightarrow> ev_id \<Rightarrow> bool" where
  "js_greater (IdNum a) (IdNum b) = (b < a)"
| "js_greater (IdNum a) RaWorkerReady = False"
| "js_greater RaWorkerReady (IdNum b) = False"
| "js_greater RaWorkerReady RaWorkerReady = False"

subsection \<open>The crate cache and \<^verbatim>\<open>loadDependency\<close>\<close>

text \<open>
  The values of the map \<^verbatim>\<open>cachedNames\<close>; a crate that is not a key of the map
  (\<^verbatim>\<open>get\<close> returns \<^verbatim>\<open>undefined\<close>) has not been loaded in any way.
\<close>

datatype status = Full | Empty

text \<open>
  What the module does to the outside: \<^verbatim>\<open>PgCommon.fetchText(path)\<close>, a call
  \<^verbatim>\<open>state.method(...args)\<close> on the world state of the analyzer, and
  \<^verbatim>\<open>monaco.editor.setModelMarkers(model, LANGUAGE_ID, diagnostics)\<close>.
\<close>

datatype 'd effect =
    FetchText string
  | StateCall string "string list"
  | SetModelMarkers string string 'd

text \<open>
  The surroundings of the module. \<open>CRATES\<close> is the constant list the module
  iterates over (its declaration is not part of the module). \<open>fetchText\<close> is the
  text the crate store serves at a path, \<open>neededCrates\<close> the reply of the
  analyzer to \<^verbatim>\<open>state.loadDependency(name, code, manifest)\<close>, and
  \<open>diagnostics\<close> the \<^verbatim>\<open>diagnostics\<close> field of its reply to
  \<^verbatim>\<open>state.update(path, text)\<close>. Every \<^verbatim>\<open>await\<close> is taken to return: the
  function continues with the reply.
\<close>

record 'd env =
  CRATES :: "string list"
  fetchText :: "string \<Rightarrow> string"
  neededCrates :: "string \<Rightarrow> string \<Rightarrow> string \<Rightarrow> string list"
  diagnostics :: "string \<Rightarrow> string \<Rightarrow> 'd"

text \<open>
  The module state: the cache, and the effects performed so far, oldest first.
\<close>

record 'd session =
  cachedNames :: "string \<rightharpoonup> status"
  effects :: "'d effect list"

definition perform :: "'d effect \<Rightarrow> 'd session \<Rightarrow> 'd session" where
  "perform e s = s\<lparr>effects := effects s @ [e]\<rparr>"

definition cachedNames_set :: "string \<Rightarrow> status \<Rightarrow> 'd session \<Rightarrow> 'd session" where
  "cachedNames_set name st s = s\<lparr>cachedNames := (cachedNames s)(name \<mapsto> st)\<rparr>"

text \<open>
  \<^verbatim>\<open>loadDependency\<close>, with the loop over \<^verbatim>\<open>neededCrates\<close> as the second
  function: the recursive call of the loop body runs on the state the previous
  iteration left.
\<close>

function loadDependency :: "'d env \<Rightarrow> string \<Rightarrow> 'd session \<Rightarrow> 'd session"
  and loadDependency_for :: "'d env \<Rightarrow> string list \<Rightarrow> 'd session \<Rightarrow> 'd session"
where
  "loadDependency E name s =
     (if cachedNames s name = Some Full then s
      else
        let code = fetchText E (''/crates/'' @ name @ ''.rs'');
            s1 = perform (FetchText (''/crates/'' @ name @ ''.rs'')) s;
            manifest = fetchText E (''/crates/'' @ name @ ''.toml'');
            s2 = perform (FetchText (''/crates/'' @ name @ ''.toml'')) s1;
            needed = neededCrates E name code manifest;
            s3 = perform (StateCall ''loadDependency'' [name, code, manifest]) s2;
            s4 = cachedNames_set name Full s3
        in loadDependency_for E needed s4)"
| "loadDependency_for E [] s = s"
| "loadDependency_for E (crate # rest) s =
     loadDependency_for E rest
       (if crate \<in> set (CRATES E) then loadDependency E crate s else s)"
  by pat_completeness auto

text \<open>
  The number of crates of \<open>CRATES\<close> that are not yet \<open>Full\<close>: it bounds the
  depth of the recursion.
\<close>

definition unfull :: "'d env \<Rightarrow> 'd session \<Rightarrow> nat" where
  "unfull E s = card {c \<in> set (CRATES E). cachedNames s c \<noteq> Some Full}"

lemma cachedNames_perform [simp]: "cachedNames (perform e s) = cachedNames s"
  by (simp add: perform_def)

lemma effects_perform [simp]: "effects (perform e s) = effects s @ [e]"
  by (simp add: perform_def)

lemma cachedNames_cachedNames_set [simp]:
  "cachedNames (cachedNames_set name st s) = (cachedNames s)(name \<mapsto> st)"
  by (simp add: cachedNames_set_def)

lemma effects_cachedNames_set [simp]: "effects (cachedNames_set name st s) = effects s"
  by (simp add: cachedNames_set_def)

lemma Full_kept_dom:
  "loadDependency_loadDependency_for_dom (Inl (E, name, s)) \<Longrightarrow>
     cachedNames s c = Some Full \<longrightarrow> cachedNames (loadDependency E name s) c = Some Full"
  "loadDependency_loadDependency_for_dom (Inr (E, cs, s)) \<Longrightarrow>
     cachedNames s c = Some Full \<longrightarrow> cachedNames (loadDependency_for E cs s) c = Some Full"
proof (induction E name s and E cs s rule: loadDependency_loadDependency_for.pinduct)
  case (1 E name s)
  then show ?case
    by (simp add: loadDependency.psimps Let_def)
next
  case (2 E s)
  then show ?case by (simp add: loadDependency_for.psimps)
next
  case (3 E crate rest s)
  then show ?case by (simp add: loadDependency_for.psimps)
qed

lemma unfull_mono:
  assumes "\<And>c. cachedNames s c = Some Full \<Longrightarrow> cachedNames s' c = Some Full"
  shows "unfull E s' \<le> unfull E s"
  unfolding unfull_def using assms by (intro card_mono) auto

lemma unfull_set_Full:
  assumes "name \<in> set (CRATES E)" "cachedNames s name \<noteq> Some Full"
  shows "unfull E (cachedNames_set name Full s) < unfull E s"
  unfolding unfull_def using assms by (intro psubset_card_mono) auto

lemma unfull_set_Full_le: "unfull E (cachedNames_set name Full s) \<le> unfull E s"
  by (rule unfull_mono) simp

lemma unfull_perform [simp]: "unfull E (perform e s) = unfull E s"
  by (simp add: unfull_def)

text \<open>
  Termination. A call of \<^verbatim>\<open>loadDependency\<close> that goes on to the loop has marked
  one more crate \<open>Full\<close>; the recursive calls of the loop are on crates of
  \<open>CRATES\<close>, and a call never takes a \<open>Full\<close> mark away.
\<close>

termination loadDependency
proof (relation "inv_image (less_than <*lex*> less_than)
    (\<lambda>x. case x of
        Inl (E, name, s) \<Rightarrow> (unfull E s + (if name \<in> set (CRATES E) then 0 else 1), 0)
      | Inr (E, cs, s) \<Rightarrow> (unfull E s, Suc (length cs)))", goal_cases)
  case 1
  then show ?case by (intro wf_inv_image wf_lex_prod wf_less_than)
next
  case (2 E name s x xa xb xc xaa xab xd)
  then show ?case
    using unfull_set_Full[of name E "perform (StateCall ''loadDependency'' [name, x, xb]) xc"]
      unfull_set_Full_le[of E name "perform (StateCall ''loadDependency'' [name, x, xb]) xc"]
    by (auto simp: less_Suc_eq_le)
next
  case (3 E crate rest s)
  then show ?case by simp
next
  case (4 E crate rest s)
  then show ?case
    using unfull_mono[of s "loadDependency E crate s" E] Full_kept_dom(1)[of E crate s]
    by (auto simp: less_Suc_eq_le)
qed

declare loadDependency.simps [simp del]

subsection \<open>The \<^verbatim>\<open>update\<close> function\<close>

text \<open>
  \<^verbatim>\<open>new RegExp(`${crate}::`, "gm").test(text)\<close>. Crate names are snake case
  (letters, digits and underscores), so the pattern has no special character and
  the test says whether the text contains the pattern somewhere. A new
  expression is built for every test, so no \<^verbatim>\<open>lastIndex\<close> is carried over.
\<close>

fun regexp_test :: "string \<Rightarrow> string \<Rightarrow> bool" where
  "regexp_test pat [] = (pat = [])"
| "regexp_test pat (ch # text) =
     (take (length pat) (ch # text) = pat \<or> regexp_test pat text)"

text \<open>The monaco model: \<^verbatim>\<open>model.uri.path\<close> and \<^verbatim>\<open>model.getValue()\<close>.\<close>

record model =
  uri_path :: string
  getValue :: string

definition LANGUAGE_ID :: string where
  "LANGUAGE_ID = ''rust''"

text \<open>The body of the loop of \<^verbatim>\<open>update\<close>, for one crate.\<close>

definition update_crate :: "'d env \<Rightarrow> model \<Rightarrow> string \<Rightarrow> 'd session \<Rightarrow> 'd session" where
  "update_crate E m crate s =
     (let status = cachedNames s crate in
      if status = Some Full then s
      else if regexp_test (crate @ ''::'') (getValue m) then loadDependency E crate s
      else if status \<noteq> Some Empty then
        cachedNames_set crate Empty (perform (StateCall ''loadDependency'' [crate]) s)
      else s)"

fun update_for :: "'d env \<Rightarrow> model \<Rightarrow> string list \<Rightarrow> 'd session \<Rightarrow> 'd session" where
  "update_for E m [] s = s"
| "update_for E m (crate # rest) s = update_for E m rest (update_crate E m crate s)"

definition update :: "'d env \<Rightarrow> model \<Rightarrow> 'd session \<Rightarrow> 'd session" where
  "update E m s =
     (let s1 = update_for E m (CRATES E) s;
          diags = diagnostics E (uri_path m) (getValue m);
          s2 = perform (StateCall ''update'' [uri_path m, getValue m]) s1
      in perform (SetModelMarkers (uri_path m) LANGUAGE_ID diags) s2)"

text \<open>The operations that change the cache, as they follow each other in a session.\<close>

datatype op = Update model | LoadDependency string

fun run_op :: "'d env \<Rightarrow> op \<Rightarrow> 'd session \<Rightarrow> 'd session" where
  "run_op E (Update m) s = update E m s"
| "run_op E (LoadDependency name) s = loadDependency E name s"

fun run_ops :: "'d env \<Rightarrow> op list \<Rightarrow> 'd session \<Rightarrow> 'd session" where
  "run_ops E [] s = s"
| "run_ops E (x # xs) s = run_ops E xs (run_op E x s)"

definition new_session :: "'d session" where
  "new_session = \<lparr>cachedNames = Map.empty, effects = []\<rparr>"

text \<open>Reading the trace: the effects performed from one state to a later one.\<close>

definition since :: "'d session \<Rightarrow> 'd session \<Rightarrow> 'd effect list" where
  "since s s' = drop (length (effects s)) (effects s')"

fun is_ingest :: "string \<Rightarrow> 'd effect \<Rightarrow> bool" where
  "is_ingest c (StateCall method [name, code, manifest]) =
     (method = ''loadDependency'' \<and> name = c)"
| "is_ingest c e = False"

fun is_register :: "string \<Rightarrow> 'd effect \<Rightarrow> bool" where
  "is_register c (StateCall method [name]) = (method = ''loadDependency'' \<and> name = c)"
| "is_register c e = False"

fun rank :: "status option \<Rightarrow> nat" where
  "rank None = 0"
| "rank (Some Empty) = 1"
| "rank (Some Full) = 2"

subsection \<open>Notions for stating and proving the properties\<close>

text \<open>
  What the analyzer returns for a crate: the reply to
  \<^verbatim>\<open>state.loadDependency(name, code, manifest)\<close> with the code and the manifest
  that the crate store serves for the name.
\<close>

definition needs :: "'d env \<Rightarrow> string \<Rightarrow> string list" where
  "needs E name =
     neededCrates E name (fetchText E (''/crates/'' @ name @ ''.rs''))
       (fetchText E (''/crates/'' @ name @ ''.toml''))"

text \<open>
  The three effects of one ingestion, as \<^verbatim>\<open>loadDependency\<close> performs them for a
  name that is not \<open>Full\<close>: the fetch of the code, the fetch of the manifest,
  the call of the analyzer with both.
\<close>

definition ingest :: "'d env \<Rightarrow> string \<Rightarrow> 'd effect list" where
  "ingest E name =
     [FetchText (''/crates/'' @ name @ ''.rs''),
      FetchText (''/crates/'' @ name @ ''.toml''),
      StateCall ''loadDependency''
        [name, fetchText E (''/crates/'' @ name @ ''.rs''),
         fetchText E (''/crates/'' @ name @ ''.toml'')]]"

text \<open>
  The state in which \<^verbatim>\<open>loadDependency\<close> enters its loop: the three effects
  performed and the name marked \<open>Full\<close>.
\<close>

definition ingested :: "'d env \<Rightarrow> string \<Rightarrow> 'd session \<Rightarrow> 'd session" where
  "ingested E name s =
     s\<lparr>effects := effects s @ ingest E name, cachedNames := (cachedNames s)(name \<mapsto> Full)\<rparr>"

text \<open>
  From \<open>s\<close> to \<open>s'\<close> exactly the crates \<open>ns\<close> were ingested, one after the
  other: none of them was \<open>Full\<close>, none is ingested twice, and the cache differs
  only in that they are \<open>Full\<close> now.
\<close>

definition loads :: "'d env \<Rightarrow> 'd session \<Rightarrow> string list \<Rightarrow> 'd session \<Rightarrow> bool" where
  "loads E s ns s' \<longleftrightarrow>
     effects s' = effects s @ concat (map (ingest E) ns) \<and> distinct ns \<and>
     (\<forall>c \<in> set ns. cachedNames s c \<noteq> Some Full) \<and>
     cachedNames s' = (\<lambda>c. if c \<in> set ns then Some Full else cachedNames s c)"

text \<open>A crate that was not \<open>Full\<close> in \<open>s\<close> and is \<open>Full\<close> in \<open>s'\<close>.\<close>

definition became_Full :: "'d session \<Rightarrow> 'd session \<Rightarrow> string \<Rightarrow> bool" where
  "became_Full s s' c \<longleftrightarrow> cachedNames s c \<noteq> Some Full \<and> cachedNames s' c = Some Full"

text \<open>The predicates on effects that count exactly one effect of each ingestion of \<open>c\<close>.\<close>

definition counts_ingest :: "'d env \<Rightarrow> string \<Rightarrow> ('d effect \<Rightarrow> bool) \<Rightarrow> bool" where
  "counts_ingest E c P \<longleftrightarrow>
     (\<forall>n. length (filter P (ingest E n)) = (if n = c then 1 else 0)) \<and>
     (\<forall>n. \<not> P (StateCall ''loadDependency'' [n])) \<and>
     (\<forall>path text. \<not> P (StateCall ''update'' [path, text])) \<and>
     (\<forall>path lang d. \<not> P (SetModelMarkers path lang d))"

text \<open>The effects of \<open>s'\<close> are those of \<open>s\<close> followed by later ones.\<close>

definition grows :: "'d session \<Rightarrow> 'd session \<Rightarrow> bool" where
  "grows s s' \<longleftrightarrow> effects s' = effects s @ since s s'"

text \<open>
  Every \<open>Full\<close> crate outside \<open>P\<close> has all the crates of \<open>CRATES\<close> that it
  needs \<open>Full\<close>. The crates of \<open>P\<close> are those whose loop is still running.
\<close>

definition closed_except :: "'d env \<Rightarrow> string set \<Rightarrow> 'd session \<Rightarrow> bool" where
  "closed_except E P s \<longleftrightarrow>
     (\<forall>a b. cachedNames s a = Some Full \<and> a \<notin> P \<and> b \<in> set (needs E a) \<and> b \<in> set (CRATES E)
        \<longrightarrow> cachedNames s b = Some Full)"

text \<open>
  The call \<^verbatim>\<open>state.loadDependency(crate)\<close> with the name alone, which makes the
  crate known to the analyzer without content.
\<close>

fun is_registration :: "'d effect \<Rightarrow> bool" where
  "is_registration (StateCall method [name]) = (method = ''loadDependency'')"
| "is_registration e = False"


subsection \<open>A session with two crates that need each other\<close>

text \<open>
  Three crates: \<open>a\<close> needs \<open>b\<close> and a crate outside \<open>CRATES\<close>, \<open>b\<close> needs
  \<open>a\<close>, \<open>c\<close> needs nothing. The store serves the path as the text.
\<close>

definition cycle_env :: "nat env" where
  "cycle_env =
     \<lparr>CRATES = [''a'', ''b'', ''c''],
      fetchText = (\<lambda>path. path),
      neededCrates = (\<lambda>name code manifest.
         if name = ''a'' then [''b'', ''std''] else if name = ''b'' then [''a''] else []),
      diagnostics = (\<lambda>path text. 0)\<rparr>"

definition model_using_a :: model where
  "model_using_a = \<lparr>uri_path = ''/src/lib.rs'', getValue = ''use a::bar;''\<rparr>"

definition model_plain :: model where
  "model_plain = \<lparr>uri_path = ''/src/lib.rs'', getValue = ''fn f() {}''\<rparr>"

section \<open>The call channel\<close>

subsection \<open>Counter, posted messages and pending table along a session\<close>

lemma run_append: "run c (xs @ ys) = run (run c xs) ys"
  by (induction xs arbitrary: c) auto

lemma id_n_step: "id_n (step e c) = id_n c + length (resolvers [e])"
  by (cases e) (auto simp: callWorker_def onmessage_def split: ev_id.splits option.splits)

lemma id_n_run: "id_n (run c evs) = id_n c + length (resolvers evs)"
proof (induction evs arbitrary: c)
  case Nil
  then show ?case by simp
next
  case (Cons e evs)
  then show ?case by (cases e) (auto simp: callWorker_def onmessage_def split: ev_id.splits option.splits)
qed

lemma issued_ids_step:
  "issued_ids (step e c) = issued_ids c @ [id_n c ..< id_n (step e c)]"
  by (cases e) (auto simp: issued_ids_def callWorker_def onmessage_def split: ev_id.splits option.splits)

lemma issued_ids_run: "issued_ids (run c evs) = issued_ids c @ [id_n c ..< id_n (run c evs)]"
proof (induction evs arbitrary: c)
  case Nil
  then show ?case by simp
next
  case (Cons e evs)
  have "id_n c \<le> id_n (step e c)" by (simp add: id_n_step)
  moreover have "id_n (step e c) \<le> id_n (run (step e c) evs)" by (simp add: id_n_run)
  ultimately have "[id_n c ..< id_n (step e c)] @ [id_n (step e c) ..< id_n (run (step e c) evs)]
      = [id_n c ..< id_n (run (step e c) evs)]"
    by (metis le_Suc_ex upt_add_eq_append)
  then show ?case using Cons[of "step e c"] by (simp add: issued_ids_step)
qed

lemma pending_step:
  "pendingResolve (step e c) t = Some y \<Longrightarrow>
     pendingResolve c t \<noteq> None \<or> (id_n c \<le> t \<and> t < id_n (step e c))"
  by (cases e) (auto simp: callWorker_def onmessage_def split: ev_id.splits option.splits if_splits)

lemma pending_run:
  "pendingResolve (run c evs) t = Some y \<Longrightarrow>
     pendingResolve c t \<noteq> None \<or> (id_n c \<le> t \<and> t < id_n (run c evs))"
proof (induction evs arbitrary: c)
  case Nil
  then show ?case by simp
next
  case (Cons e evs)
  have a: "id_n c \<le> id_n (step e c)" by (simp add: id_n_step)
  have b: "id_n (step e c) \<le> id_n (run (step e c) evs)" by (simp add: id_n_run)
  from Cons.prems have "pendingResolve (run (step e c) evs) t = Some y" by simp
  from Cons.IH[OF this] consider
      (old) "pendingResolve (step e c) t \<noteq> None"
    | (new) "id_n (step e c) \<le> t" "t < id_n (run (step e c) evs)" by blast
  then show ?case
  proof cases
    case old
    then obtain z where "pendingResolve (step e c) t = Some z" by blast
    from pending_step[OF this] show ?thesis using b by auto
  next
    case new
    then show ?thesis using a by auto
  qed
qed

lemma calls_of_append [simp]: "calls_of r (xs @ ys) = calls_of r xs @ calls_of r ys"
  by (simp add: calls_of_def)

lemma calls_of_single [simp]: "calls_of r [(r', v)] = (if r' = r then [v] else [])"
  by (simp add: calls_of_def)

lemma calls_of_Nil [simp]: "calls_of r [] = []"
  by (simp add: calls_of_def)

lemma pending_callWorker:
  "pendingResolve (callWorker m a r' c) = (pendingResolve c)(id_n c \<mapsto> r')"
  by (simp add: callWorker_def)

lemma resolved_callWorker: "resolved (callWorker m a r' c) = resolved c"
  by (simp add: callWorker_def)

lemma id_n_callWorker: "id_n (callWorker m a r' c) = id_n c + 1"
  by (simp add: callWorker_def)

lemma onmessage_ready: "onmessage RaWorkerReady v c = c\<lparr>proxies := proxies c + 1\<rparr>"
  by (simp add: onmessage_def)

lemma onmessage_hit:
  "pendingResolve c i = Some r \<Longrightarrow>
     onmessage (IdNum i) v c =
       c\<lparr>resolved := resolved c @ [(r, v)], pendingResolve := (pendingResolve c)(i := None)\<rparr>"
  by (simp add: onmessage_def)

lemma onmessage_miss: "pendingResolve c i = None \<Longrightarrow> onmessage (IdNum i) v c = c"
  by (simp add: onmessage_def)

lemma id_n_onmessage: "id_n (onmessage j v c) = id_n c"
  by (simp add: onmessage_def split: ev_id.splits option.splits)

lemma pending_onmessage:
  "pendingResolve (onmessage j v c) k =
     (if j = IdNum k then None else pendingResolve c k)"
  by (cases j; cases "pendingResolve c k")
     (auto simp: onmessage_def split: option.splits)

lemma calls_of_onmessage:
  "calls_of r (resolved (onmessage j v c)) =
     calls_of r (resolved c) @
       (case j of RaWorkerReady \<Rightarrow> [] | IdNum k \<Rightarrow> if pendingResolve c k = Some r then [v] else [])"
  by (cases j) (auto simp: onmessage_def split: option.splits)

lemma untouched:
  "r \<notin> ran (pendingResolve c) \<Longrightarrow> r \<notin> set (resolvers evs) \<Longrightarrow>
     calls_of r (resolved (run c evs)) = calls_of r (resolved c)
     \<and> r \<notin> ran (pendingResolve (run c evs))"
proof (induction evs arbitrary: c)
  case Nil
  then show ?case by simp
next
  case (Cons e evs)
  from Cons.prems(1) have none: "\<forall>k. pendingResolve c k \<noteq> Some r"
    by (simp add: ran_def)
  show ?case
  proof (cases e)
    case (Call m a r')
    with Cons.prems have ne: "r' \<noteq> r" and rest: "r \<notin> set (resolvers evs)" by auto
    have "\<forall>k. pendingResolve (callWorker m a r' c) k \<noteq> Some r"
      using none ne by (simp add: pending_callWorker)
    then have "r \<notin> ran (pendingResolve (callWorker m a r' c))"
      by (simp add: ran_def)
    from Cons.IH[OF this rest] show ?thesis
      using Call by (simp add: resolved_callWorker)
  next
    case (Message j v)
    with Cons.prems have rest: "r \<notin> set (resolvers evs)" by simp
    have "\<forall>k. pendingResolve (onmessage j v c) k \<noteq> Some r"
      using none by (simp add: pending_onmessage)
    then have keep: "r \<notin> ran (pendingResolve (onmessage j v c))"
      by (simp add: ran_def)
    have same: "calls_of r (resolved (onmessage j v c)) = calls_of r (resolved c)"
      using none by (simp add: calls_of_onmessage split: ev_id.splits)
    from Cons.IH[OF keep rest] show ?thesis
      using Message same by simp
  qed
qed

lemma held:
  "pendingResolve c i = Some r \<Longrightarrow> i < id_n c \<Longrightarrow>
   \<forall>j. pendingResolve c j = Some r \<longrightarrow> j = i \<Longrightarrow>
   r \<notin> set (resolvers evs) \<Longrightarrow>
     calls_of r (resolved (run c evs)) = calls_of r (resolved c) @ take 1 (replies_to i evs)"
proof (induction evs arbitrary: c)
  case Nil
  show ?case by simp
next
  case (Cons e evs)
  show ?case
  proof (cases e)
    case (Call m a r')
    with Cons.prems(4) have ne: "r' \<noteq> r" and rest: "r \<notin> set (resolvers evs)" by auto
    let ?c = "callWorker m a r' c"
    have 1: "pendingResolve ?c i = Some r"
      using Cons.prems(1,2) by (simp add: pending_callWorker)
    have 2: "i < id_n ?c" using Cons.prems(2) by (simp add: id_n_callWorker)
    have 3: "\<forall>j. pendingResolve ?c j = Some r \<longrightarrow> j = i"
    proof (intro allI impI)
      fix j assume "pendingResolve ?c j = Some r"
      then have "pendingResolve c j = Some r"
        using ne by (simp add: pending_callWorker split: if_splits)
      with Cons.prems(3) show "j = i" by blast
    qed
    from Cons.IH[OF 1 2 3 rest] show ?thesis
      using Call by (simp add: resolved_callWorker)
  next
    case (Message j v)
    with Cons.prems(4) have rest: "r \<notin> set (resolvers evs)" by simp
    show ?thesis
    proof (cases "j = IdNum i")
      case True
      let ?c = "onmessage (IdNum i) v c"
      have res: "calls_of r (resolved ?c) = calls_of r (resolved c) @ [v]"
        using Cons.prems(1) by (simp add: calls_of_onmessage)
      have "\<forall>k. pendingResolve ?c k \<noteq> Some r"
      proof (intro allI notI)
        fix k assume k: "pendingResolve ?c k = Some r"
        then have "k \<noteq> i" by (simp add: pending_onmessage split: if_splits)
        moreover from k have "pendingResolve c k = Some r"
          by (simp add: pending_onmessage split: if_splits)
        ultimately show False using Cons.prems(3) by blast
      qed
      then have "r \<notin> ran (pendingResolve ?c)" by (simp add: ran_def)
      from untouched[OF this rest] show ?thesis
        using Message True res by simp
    next
      case False
      let ?c = "onmessage j v c"
      have 1: "pendingResolve ?c i = Some r"
        using Cons.prems(1) False by (simp add: pending_onmessage)
      have 2: "i < id_n ?c"
        using Cons.prems(2) by (simp add: id_n_onmessage)
      have 3: "\<forall>k. pendingResolve ?c k = Some r \<longrightarrow> k = i"
      proof (intro allI impI)
        fix k assume "pendingResolve ?c k = Some r"
        then have "pendingResolve c k = Some r"
          by (simp add: pending_onmessage split: if_splits)
        with Cons.prems(3) show "k = i" by blast
      qed
      have same: "calls_of r (resolved ?c) = calls_of r (resolved c)"
      proof (cases j)
        case RaWorkerReady
        then show ?thesis by (simp add: calls_of_onmessage)
      next
        case (IdNum k)
        with False have "k \<noteq> i" by simp
        with Cons.prems(3) have "pendingResolve c k \<noteq> Some r" by blast
        then show ?thesis using IdNum by (simp add: calls_of_onmessage)
      qed
      from Cons.IH[OF 1 2 3 rest] show ?thesis
        using Message False same by simp
    qed
  qed
qed

lemma posted_onmessage: "posted (onmessage j v c) = posted c"
  by (simp add: onmessage_def split: ev_id.splits option.splits)

lemma posted_callWorker: "posted (callWorker m a r c) = posted c @ [(m, a, id_n c)]"
  by (simp add: callWorker_def)

lemma posted_run: "\<exists>more. posted (run c evs) = posted c @ more"
proof (induction evs arbitrary: c)
  case Nil
  then show ?case by simp
next
  case (Cons e evs)
  obtain m1 where "posted (step e c) = posted c @ m1"
    by (cases e) (simp_all add: posted_onmessage posted_callWorker)
  moreover obtain m2 where "posted (run (step e c) evs) = posted (step e c) @ m2"
    using Cons by blast
  ultimately show ?case by simp
qed

lemma resolvers_append [simp]: "resolvers (xs @ ys) = resolvers xs @ resolvers ys"
  by (induction xs rule: resolvers.induct) auto


subsection \<open>Replies reach the call they answer\<close>

text \<open>
  C1. Take any session of the channel: calls and worker messages in any
  interleaving, each call with a resolver of its own. Look at one call in it, with
  the events \<open>pre\<close> before it and \<open>post\<close> after it. The message posted for it
  carries its method, its arguments and the id \<open>1 + length (resolvers pre)\<close>, and
  its resolver is invoked with the result of the first message of \<open>post\<close> that
  bears this id, and with nothing else: once when such a message has arrived,
  whatever the order in which the replies to other calls arrive, and not at all
  before.
\<close>

theorem each_call_resolved_once:
  fixes pre post :: "('a, 'r, 'v) event list"
  assumes "distinct (resolvers (pre @ Call method args res # post))"
  shows "(method, args, 1 + length (resolvers pre))
           \<in> set (posted (run createWorker (pre @ Call method args res # post)))
       \<and> calls_of res (resolved (run createWorker (pre @ Call method args res # post)))
           = take 1 (replies_to (1 + length (resolvers pre)) post)"
proof -
  let ?i = "1 + length (resolvers pre)"
  let ?c1 = "run createWorker pre"
  let ?c2 = "callWorker method args res ?c1"
  from assms have np: "res \<notin> set (resolvers pre)" and nq: "res \<notin> set (resolvers post)"
    by auto
  have "res \<notin> ran (pendingResolve (createWorker :: ('a, 'r, 'v) channel))"
    by (simp add: createWorker_def)
  from untouched[OF this np]
  have log1: "calls_of res (resolved ?c1) = []" and free: "res \<notin> ran (pendingResolve ?c1)"
    by (simp_all add: createWorker_def)
  have id1: "id_n ?c1 = ?i" by (simp add: id_n_run createWorker_def)
  have 1: "pendingResolve ?c2 ?i = Some res" using id1 by (simp add: pending_callWorker)
  have 2: "?i < id_n ?c2" using id1 by (simp add: id_n_callWorker)
  have "\<forall>k. pendingResolve ?c1 k \<noteq> Some res" using free by (simp add: ran_def)
  then have 3: "\<forall>j. pendingResolve ?c2 j = Some res \<longrightarrow> j = ?i"
    using id1 by (auto simp: pending_callWorker split: if_splits)
  have log2: "calls_of res (resolved ?c2) = []" using log1 by (simp add: resolved_callWorker)
  have whole: "run createWorker (pre @ Call method args res # post) = run ?c2 post"
    by (simp add: run_append)
  have a: "calls_of res (resolved (run ?c2 post)) = take 1 (replies_to ?i post)"
    using held[OF 1 2 3 nq] log2 by simp
  obtain more where "posted (run ?c2 post) = posted ?c2 @ more"
    using posted_run by blast
  then have b: "(method, args, ?i) \<in> set (posted (run ?c2 post))"
    using id1 by (simp add: posted_callWorker)
  show ?thesis using a b unfolding whole by blast
qed


theorem each_call_resolved_once_witness:
  "distinct (resolvers ([Call ''hover'' [1::nat, 2] (10::nat)] @ Call ''completions'' [3, 4] 20 #
       [Call ''rename'' [5] 30, Message (IdNum 3) (300::nat), Message (IdNum 2) 200,
        Message (IdNum 1) 100, Message (IdNum 2) 201]))
   \<and> calls_of 20 (resolved (run createWorker ([Call ''hover'' [1::nat, 2] (10::nat)] @
       Call ''completions'' [3, 4] 20 #
       [Call ''rename'' [5] 30, Message (IdNum 3) (300::nat), Message (IdNum 2) 200,
        Message (IdNum 1) 100, Message (IdNum 2) 201]))) = [200]"
  using each_call_resolved_once [of "[Call ''hover'' [1::nat, 2] (10::nat)]"
      "''completions''" "[3, 4]" 20
      "[Call ''rename'' [5] 30, Message (IdNum 3) (300::nat), Message (IdNum 2) 200,
        Message (IdNum 1) 100, Message (IdNum 2) 201]"]
  by simp

subsection \<open>Correlation ids\<close>

text \<open>
  C8, as the code has it. At every point of a session the ids given to the calls
  so far are \<open>1, 2, \<dots>\<close> up to the counter, in this order: the first id is 1,
  each id is above the one before, and no id is given twice. The keys of the
  pending table are among them, so the ids of the outstanding calls are distinct
  and the id of the next call is not in the table: a call never takes the entry
  of an outstanding one. The readiness signal is marked by the string
  \<^verbatim>\<open>"ra-worker-ready"\<close>, which is not a number: it is none of the ids.
\<close>

theorem ids_distinct_increasing:
  fixes evs :: "('a, 'r, 'v) event list"
  defines "c \<equiv> run createWorker evs"
  shows "id_n (createWorker :: ('a, 'r, 'v) channel) = 1
    \<and> id_n c = 1 + length (resolvers evs)
    \<and> issued_ids c = [1 ..< id_n c]
    \<and> sorted_wrt (<) (issued_ids c)
    \<and> distinct (issued_ids c)
    \<and> dom (pendingResolve c) \<subseteq> set (issued_ids c)
    \<and> id_n c \<notin> set (issued_ids c)
    \<and> RaWorkerReady \<notin> IdNum ` set (issued_ids c)"
proof -
  have i: "id_n c = 1 + length (resolvers evs)"
    unfolding c_def by (simp add: id_n_run createWorker_def)
  have u: "issued_ids c = [1 ..< id_n c]"
    using issued_ids_run[of createWorker evs] unfolding c_def
    by (simp add: createWorker_def issued_ids_def)
  have d: "dom (pendingResolve c) \<subseteq> set (issued_ids c)"
  proof
    fix t assume "t \<in> dom (pendingResolve c)"
    then obtain y where "pendingResolve (run createWorker evs) t = Some y"
      unfolding c_def by blast
    from pending_run[OF this] have "1 \<le> t \<and> t < id_n c"
      unfolding c_def by (simp add: createWorker_def)
    then show "t \<in> set (issued_ids c)" by (simp add: u)
  qed
  have f: "id_n c \<notin> set (issued_ids c)"
    by (simp add: u)
  have s: "sorted_wrt (<) (issued_ids c)" "distinct (issued_ids c)"
    by (simp_all add: u)
  have r: "RaWorkerReady \<notin> IdNum ` set (issued_ids c)" by blast
  have z: "id_n (createWorker :: ('a, 'r, 'v) channel) = 1" by (simp add: createWorker_def)
  show ?thesis using i u d f s r z by blast
qed



text \<open>
  The ids are not above the mark of the readiness signal in any order the
  language has: the first id, 1, is not greater than the string, nor is the
  string smaller than the id.
\<close>

theorem first_id_not_above_sentinel:
  "\<not> js_greater (IdNum (id_n (createWorker :: (nat, nat, nat) channel))) RaWorkerReady
   \<and> id_n (createWorker :: (nat, nat, nat) channel) = 1
   \<and> RaWorkerReady \<noteq> IdNum (id_n (createWorker :: (nat, nat, nat) channel))"
  by (simp add: createWorker_def)

text \<open>
  C10. A message with a number that is no key of the pending table leaves the
  channel exactly as it was: no resolver is invoked and nothing changes. This is
  so for a number that no call has been given yet, and for a second message with
  the number of a call that was already answered, since the first message
  removed the entry.
\<close>

theorem unmatched_message_dropped:
  fixes c :: "('a, 'r, 'v) channel" and evs :: "('a, 'r, 'v) event list"
  shows "(pendingResolve c i = None \<longrightarrow> onmessage (IdNum i) result c = c)
    \<and> onmessage (IdNum i) result' (onmessage (IdNum i) result c)
        = onmessage (IdNum i) result c
    \<and> (id_n (run createWorker evs) \<le> k \<or> k = 0 \<longrightarrow>
        onmessage (IdNum k) result (run createWorker evs) = run createWorker evs)"
proof -
  have miss: "\<And>d :: ('a, 'r, 'v) channel. \<And>j v. pendingResolve d j = None \<Longrightarrow> onmessage (IdNum j) v d = d"
    by (rule onmessage_miss)
  have "pendingResolve (onmessage (IdNum i) result c) i = None"
    by (simp add: pending_onmessage)
  then have dup: "onmessage (IdNum i) result' (onmessage (IdNum i) result c)
        = onmessage (IdNum i) result c"
    by (rule miss)
  have "pendingResolve (run createWorker evs) k = None"
    if "id_n (run createWorker evs) \<le> k \<or> k = 0"
  proof (rule ccontr)
    assume "pendingResolve (run createWorker evs) k \<noteq> None"
    then obtain y where "pendingResolve (run createWorker evs) k = Some y" by blast
    from pending_run[OF this] have "1 \<le> k \<and> k < id_n (run createWorker evs)"
      by (simp add: createWorker_def)
    with that show False by auto
  qed
  then show ?thesis using miss dup by blast
qed

theorem unmatched_message_dropped_witness:
  "pendingResolve (run createWorker [Call ''hover'' [1::nat] (10::nat), Message (IdNum 1) (100::nat)]) 1 = None
   \<and> onmessage (IdNum 1) 101 (run createWorker [Call ''hover'' [1::nat] (10::nat), Message (IdNum 1) (100::nat)])
         = run createWorker [Call ''hover'' [1::nat] (10::nat), Message (IdNum 1) (100::nat)]
   \<and> id_n (run createWorker [Call ''hover'' [1::nat] (10::nat), Message (IdNum 1) (100::nat)]) \<le> 7
   \<and> onmessage (IdNum 7) 101 (run createWorker [Call ''hover'' [1::nat] (10::nat), Message (IdNum 1) (100::nat)])
         = run createWorker [Call ''hover'' [1::nat] (10::nat), Message (IdNum 1) (100::nat)]"
  using unmatched_message_dropped [where c = "run createWorker [Call ''hover'' [1::nat] (10::nat), Message (IdNum 1) (100::nat)]"
      and i = 1 and result = "101::nat" and k = 7
      and evs = "[Call ''hover'' [1::nat] (10::nat), Message (IdNum 1) (100::nat)]"]
  by (simp add: createWorker_def callWorker_def onmessage_def)

subsection \<open>The proxy\<close>

text \<open>
  C9, as the code has it. For every property name other than \<^verbatim>\<open>"then"\<close> and
  every argument list, a method call on the proxy is one call of
  \<^verbatim>\<open>callWorker\<close> with this name and these arguments and nothing else: one
  message with the name, the arguments and the current id is posted.
\<close>

theorem proxy_forwards:
  assumes "prop \<noteq> ''then''"
  shows "proxy_call prop args res c = Inr (callWorker prop args res c)
    \<and> posted (callWorker prop args res c) = posted c @ [(prop, args, id_n c)]"
  using assms by (simp add: proxy_call_def proxyHandler_get_def posted_callWorker)

theorem proxy_forwards_witness:
  "''hover'' \<noteq> ''then''
   \<and> proxy_call ''hover'' [3::nat, 4] (10::nat) (createWorker :: (nat, nat, nat) channel)
       = Inr (callWorker ''hover'' [3, 4] 10 createWorker)
   \<and> posted (callWorker ''hover'' [3::nat, 4] (10::nat) (createWorker :: (nat, nat, nat) channel))
       = [(''hover'', [3, 4], 1)]"
  using proxy_forwards [of "''hover''" "[3::nat, 4]" "10::nat" "createWorker :: (nat, nat, nat) channel"]
  by (simp add: createWorker_def)

text \<open>
  The property \<^verbatim>\<open>"then"\<close> is not forwarded: the trap returns
  \<^verbatim>\<open>undefined\<close>, calling it fails, and no message is posted.
\<close>

theorem proxy_then_not_forwarded:
  "proxy_call ''then'' [3::nat, 4] (10::nat) (createWorker :: (nat, nat, nat) channel) = Inl TypeError
   \<and> proxy_call ''then'' [3::nat, 4] (10::nat) (createWorker :: (nat, nat, nat) channel)
       \<noteq> Inr (callWorker ''then'' [3, 4] 10 createWorker)"
  by (simp add: proxy_call_def proxyHandler_get_def)

section \<open>The crate loader and the update function\<close>

lemma loadDependency_unfold:
  "loadDependency E name s =
     (if cachedNames s name = Some Full then s
      else loadDependency_for E (needs E name) (ingested E name s))"
  by (simp add: loadDependency.simps Let_def needs_def ingested_def ingest_def
      perform_def cachedNames_set_def)

lemma loadDependency_induct [case_names load nil cons]:
  assumes load: "\<And>E name s.
      (cachedNames s name \<noteq> Some Full \<Longrightarrow> Q E (needs E name) (ingested E name s))
      \<Longrightarrow> P E name s"
    and nil: "\<And>E s. Q E [] s"
    and cons: "\<And>E crate rest s.
      (crate \<in> set (CRATES E) \<Longrightarrow> P E crate s) \<Longrightarrow>
      Q E rest (if crate \<in> set (CRATES E) then loadDependency E crate s else s) \<Longrightarrow>
      Q E (crate # rest) s"
  shows "P E name s" and "Q E cs s"
proof (induction E name s and E cs s rule: loadDependency_loadDependency_for.induct)
  case (1 E name s)
  show ?case
  proof (rule load)
    assume "cachedNames s name \<noteq> Some Full"
    from 1[OF this refl refl refl refl refl refl refl]
    show "Q E (needs E name) (ingested E name s)"
      by (simp add: needs_def ingested_def ingest_def perform_def cachedNames_set_def)
  qed
next
  case (2 E s)
  show ?case by (rule nil)
next
  case (3 E crate rest s)
  show ?case by (rule cons) (use 3 in auto)
qed

lemma cachedNames_ingested [simp]:
  "cachedNames (ingested E name s) = (cachedNames s)(name \<mapsto> Full)"
  by (simp add: ingested_def)

lemma effects_ingested [simp]: "effects (ingested E name s) = effects s @ ingest E name"
  by (simp add: ingested_def)

lemma rank_le_Full [simp]: "rank st \<le> 2"
  by (cases st rule: rank.cases) auto

lemma rank_Full_iff: "rank st = 2 \<longleftrightarrow> st = Some Full"
  by (cases st rule: rank.cases) auto

lemma rank_loadDependency:
  "rank (cachedNames s c) \<le> rank (cachedNames (loadDependency E name s) c)"
  "rank (cachedNames s c) \<le> rank (cachedNames (loadDependency_for E cs s) c)"
proof (induction E name s and E cs s rule: loadDependency_induct)
  case (load E name s)
  show ?case
  proof (cases "cachedNames s name = Some Full")
    case True
    then show ?thesis by (simp add: loadDependency_unfold)
  next
    case False
    have "rank (cachedNames s c) \<le> rank (cachedNames (ingested E name s) c)" by simp
    also note load[OF False]
    finally show ?thesis using False by (simp add: loadDependency_unfold)
  qed
next
  case (nil E s)
  show ?case by simp
next
  case (cons E crate rest s)
  then show ?case by (auto intro: order_trans)
qed

lemma rank_ge_Full: "2 \<le> rank st \<Longrightarrow> st = Some Full"
  by (cases st rule: rank.cases) auto

lemma Full_kept:
  assumes "cachedNames s c = Some Full"
  shows "cachedNames (loadDependency E name s) c = Some Full"
    and "cachedNames (loadDependency_for E cs s) c = Some Full"
proof -
  have "2 \<le> rank (cachedNames (loadDependency E name s) c)"
    using rank_loadDependency(1)[where s = s and c = c and E = E and name = name] assms
    by simp
  then show "cachedNames (loadDependency E name s) c = Some Full" by (rule rank_ge_Full)
  have "2 \<le> rank (cachedNames (loadDependency_for E cs s) c)"
    using rank_loadDependency(2)[where s = s and c = c and E = E and cs = cs] assms
    by simp
  then show "cachedNames (loadDependency_for E cs s) c = Some Full" by (rule rank_ge_Full)
qed

lemma loadDependency_Full: "cachedNames (loadDependency E name s) name = Some Full"
  by (simp add: loadDependency_unfold Full_kept(2))

lemma loads_refl: "loads E s [] s"
  by (simp add: loads_def)

lemma loads_ingested:
  "cachedNames s name \<noteq> Some Full \<Longrightarrow> loads E s [name] (ingested E name s)"
  by (auto simp: loads_def fun_eq_iff)

lemma loads_trans:
  assumes 1: "loads E s ns1 s1" and 2: "loads E s1 ns2 s2"
  shows "loads E s (ns1 @ ns2) s2"
proof -
  have c1: "cachedNames s1 = (\<lambda>c. if c \<in> set ns1 then Some Full else cachedNames s c)"
    using 1 by (simp add: loads_def)
  have c2: "cachedNames s2 = (\<lambda>c. if c \<in> set ns2 then Some Full else cachedNames s1 c)"
    using 2 by (simp add: loads_def)
  have n2: "\<forall>c \<in> set ns2. cachedNames s1 c \<noteq> Some Full"
    using 2 by (simp add: loads_def)
  have n1: "\<forall>c \<in> set ns1. cachedNames s c \<noteq> Some Full"
    using 1 by (simp add: loads_def)
  have disj: "set ns1 \<inter> set ns2 = {}"
    using n2 by (auto simp: c1)
  have e: "effects s2 = effects s @ concat (map (ingest E) (ns1 @ ns2))"
    using 1 2 by (simp add: loads_def)
  have d: "distinct (ns1 @ ns2)"
    using 1 2 disj by (simp add: loads_def)
  have n: "\<forall>c \<in> set (ns1 @ ns2). cachedNames s c \<noteq> Some Full"
  proof
    fix c assume "c \<in> set (ns1 @ ns2)"
    then consider "c \<in> set ns1" | "c \<in> set ns2" "c \<notin> set ns1" by auto
    then show "cachedNames s c \<noteq> Some Full"
    proof cases
      case 1
      then show ?thesis using n1 by blast
    next
      case 2
      then have "cachedNames s1 c \<noteq> Some Full" using n2 by blast
      then show ?thesis using 2 by (simp add: c1)
    qed
  qed
  have c: "cachedNames s2 = (\<lambda>c. if c \<in> set (ns1 @ ns2) then Some Full else cachedNames s c)"
    by (auto simp: c1 c2 fun_eq_iff)
  show ?thesis unfolding loads_def using e d n c by blast
qed

lemma loadDependency_loads:
  "\<exists>ns. loads E s ns (loadDependency E name s) \<and> set ns \<subseteq> insert name (set (CRATES E))"
  "\<exists>ns. loads E s ns (loadDependency_for E cs s) \<and> set ns \<subseteq> set (CRATES E)"
proof (induction E name s and E cs s rule: loadDependency_induct)
  case (load E name s)
  show ?case
  proof (cases "cachedNames s name = Some Full")
    case True
    then have "loads E s [] (loadDependency E name s)"
      by (simp add: loadDependency_unfold loads_refl)
    then show ?thesis by force
  next
    case False
    from load[OF False] obtain ns
      where ns: "loads E (ingested E name s) ns (loadDependency_for E (needs E name) (ingested E name s))"
        and sub: "set ns \<subseteq> set (CRATES E)" by blast
    from loads_trans[OF loads_ingested[OF False] ns]
    have "loads E s ([name] @ ns) (loadDependency E name s)"
      using False by (simp add: loadDependency_unfold)
    moreover have "set ([name] @ ns) \<subseteq> insert name (set (CRATES E))" using sub by auto
    ultimately show ?thesis by blast
  qed
next
  case (nil E s)
  have "loads E s [] (loadDependency_for E [] s)" by (simp add: loads_refl)
  then show ?case by force
next
  case (cons E crate rest s)
  let ?s1 = "if crate \<in> set (CRATES E) then loadDependency E crate s else s"
  obtain ns1 where ns1: "loads E s ns1 ?s1" and sub1: "set ns1 \<subseteq> set (CRATES E)"
  proof (cases "crate \<in> set (CRATES E)")
    case True
    from cons(1)[OF True] obtain ns
      where "loads E s ns (loadDependency E crate s)"
        and "set ns \<subseteq> insert crate (set (CRATES E))" by blast
    then show ?thesis using True that[of ns] by auto
  next
    case False
    then show ?thesis using that[of "[]"] by (simp add: loads_refl)
  qed
  from cons(2) obtain ns2
    where ns2: "loads E ?s1 ns2 (loadDependency_for E rest ?s1)"
      and sub2: "set ns2 \<subseteq> set (CRATES E)" by blast
  from loads_trans[OF ns1 ns2]
  have "loads E s (ns1 @ ns2) (loadDependency_for E (crate # rest) s)" by simp
  moreover have "set (ns1 @ ns2) \<subseteq> set (CRATES E)" using sub1 sub2 by simp
  ultimately show ?case by blast
qed

subsection \<open>Counting effects\<close>

lemma toml_not_rs [simp]: "a @ ''.toml'' \<noteq> b @ ''.rs''" "b @ ''.rs'' \<noteq> a @ ''.toml''"
proof -
  have "last (a @ ''.toml'') \<noteq> last (b @ ''.rs'')" by simp
  then show "a @ ''.toml'' \<noteq> b @ ''.rs''" by metis
  then show "b @ ''.rs'' \<noteq> a @ ''.toml''" by metis
qed

lemma counts_ingest_is_ingest: "counts_ingest E c (is_ingest c)"
  by (simp add: counts_ingest_def ingest_def)

lemma counts_ingest_rs: "counts_ingest E c ((=) (FetchText (''/crates/'' @ c @ ''.rs'')))"
  by (simp add: counts_ingest_def ingest_def)

lemma counts_ingest_toml: "counts_ingest E c ((=) (FetchText (''/crates/'' @ c @ ''.toml'')))"
  by (simp add: counts_ingest_def ingest_def)

lemma count_ingests:
  assumes "counts_ingest E c P"
  shows "length (filter P (concat (map (ingest E) ns))) = count_list ns c"
  using assms by (induction ns) (auto simp: counts_ingest_def)

lemma count_list_distinct: "distinct ns \<Longrightarrow> count_list ns c = (if c \<in> set ns then 1 else 0)"
  by (induction ns) auto

lemma since_self [simp]: "since s s = []"
  by (simp add: since_def)

lemma since_append: "effects s' = effects s @ new \<Longrightarrow> since s s' = new"
  by (simp add: since_def)

lemma since_trans:
  "effects s1 = effects s @ a \<Longrightarrow> effects s2 = effects s1 @ b \<Longrightarrow>
     since s s2 = since s s1 @ since s1 s2"
  by (simp add: since_def)

lemma loads_since: "loads E s ns s' \<Longrightarrow> since s s' = concat (map (ingest E) ns)"
  by (simp add: loads_def since_def)

lemma loads_became: "loads E s ns s' \<Longrightarrow> c \<in> set ns \<longleftrightarrow> became_Full s s' c"
  by (auto simp: loads_def became_Full_def)

lemma loads_count:
  assumes "loads E s ns s'" "counts_ingest E c P"
  shows "length (filter P (since s s')) = (if became_Full s s' c then 1 else 0)"
proof -
  have "distinct ns" using assms(1) by (simp add: loads_def)
  then show ?thesis
    using loads_since[OF assms(1)] count_ingests[OF assms(2), of ns] loads_became[OF assms(1), of c]
    by (simp add: count_list_distinct)
qed

lemma loads_registers: "loads E s ns s' \<Longrightarrow> filter (is_register c) (since s s') = []"
proof -
  have "filter (is_register c) (concat (map (ingest E) ns)) = []"
    by (induction ns) (auto simp: ingest_def)
  then show "loads E s ns s' \<Longrightarrow> filter (is_register c) (since s s') = []"
    by (simp add: loads_since)
qed

lemma loadDependency_grows:
  "effects (loadDependency E name s) = effects s @ since s (loadDependency E name s)"
proof -
  obtain ns where "loads E s ns (loadDependency E name s)"
    using loadDependency_loads(1) by blast
  then show ?thesis by (simp add: loads_def since_def)
qed

lemma loadDependency_count:
  assumes "counts_ingest E c P"
  shows "length (filter P (since s (loadDependency E name s)))
     = (if became_Full s (loadDependency E name s) c then 1 else 0)"
proof -
  obtain ns where "loads E s ns (loadDependency E name s)"
    using loadDependency_loads(1) by blast
  from loads_count[OF this assms] show ?thesis .
qed

lemma loadDependency_registers:
  "filter (is_register c) (since s (loadDependency E name s)) = []"
proof -
  obtain ns where "loads E s ns (loadDependency E name s)"
    using loadDependency_loads(1) by blast
  from loads_registers[OF this] show ?thesis .
qed

text \<open>
  C2. A second call of \<^verbatim>\<open>loadDependency\<close> for the same name, after the first
  has returned, finds the name \<open>Full\<close> and returns the state as it is: it
  performs no effect at all. Over the two calls the analyzer call with source and
  manifest for the name, and each of its two fetches, happen once when the name
  was not \<open>Full\<close> before, and not at all when it was.
\<close>

theorem loadDependency_twice:
  "loadDependency E name (loadDependency E name s) = loadDependency E name s
   \<and> since (loadDependency E name s) (loadDependency E name (loadDependency E name s)) = []
   \<and> length (filter (is_ingest name) (since s (loadDependency E name (loadDependency E name s))))
       = (if cachedNames s name = Some Full then 0 else 1)
   \<and> count_list (since s (loadDependency E name (loadDependency E name s)))
        (FetchText (''/crates/'' @ name @ ''.rs''))
       = (if cachedNames s name = Some Full then 0 else 1)
   \<and> count_list (since s (loadDependency E name (loadDependency E name s)))
        (FetchText (''/crates/'' @ name @ ''.toml''))
       = (if cachedNames s name = Some Full then 0 else 1)"
proof -
  let ?s1 = "loadDependency E name s"
  have full: "cachedNames ?s1 name = Some Full" by (rule loadDependency_Full)
  then have again: "loadDependency E name ?s1 = ?s1" by (simp add: loadDependency_unfold)
  have b: "became_Full s ?s1 name \<longleftrightarrow> cachedNames s name \<noteq> Some Full"
    using full by (simp add: became_Full_def)
  have 1: "length (filter (is_ingest name) (since s ?s1)) = (if cachedNames s name = Some Full then 0 else 1)"
    using loadDependency_count[OF counts_ingest_is_ingest, of name s E name] b by simp
  have 2: "count_list (since s ?s1) (FetchText (''/crates/'' @ name @ ''.rs''))
      = (if cachedNames s name = Some Full then 0 else 1)"
    using loadDependency_count[OF counts_ingest_rs, of name s E name] b
    by (simp add: count_list_eq_length_filter)
  have 3: "count_list (since s ?s1) (FetchText (''/crates/'' @ name @ ''.toml''))
      = (if cachedNames s name = Some Full then 0 else 1)"
    using loadDependency_count[OF counts_ingest_toml, of name s E name] b
    by (simp add: count_list_eq_length_filter)
  show ?thesis unfolding again using 1 2 3 by simp
qed

subsection \<open>The effects only grow\<close>

lemma growsI: "effects s' = effects s @ new \<Longrightarrow> grows s s'"
  by (simp add: grows_def since_def)

lemma grows_refl [simp]: "grows s s"
  by (simp add: grows_def)

lemma grows_trans: "grows s s1 \<Longrightarrow> grows s1 s2 \<Longrightarrow> grows s s2"
  unfolding grows_def by (metis append.assoc since_append)

lemma grows_since_trans: "grows s s1 \<Longrightarrow> grows s1 s2 \<Longrightarrow> since s s2 = since s s1 @ since s1 s2"
  unfolding grows_def by (rule since_trans)

lemma grows_loadDependency [simp]: "grows s (loadDependency E name s)"
  using loadDependency_grows by (simp add: grows_def)

lemma grows_register [simp]: "grows s (cachedNames_set crate st (perform e s))"
  by (rule growsI[where new = "[e]"]) simp

lemma since_register [simp]: "since s (cachedNames_set crate st (perform e s)) = [e]"
  by (simp add: since_def)

lemma grows_update_crate [simp]: "grows s (update_crate E m crate s)"
  by (simp add: update_crate_def Let_def)

lemma grows_update_for [simp]: "grows s (update_for E m crates s)"
proof (induction crates arbitrary: s)
  case Nil
  show ?case by simp
next
  case (Cons crate crates)
  show ?case using grows_trans[OF grows_update_crate Cons] by simp
qed

lemma effects_update:
  "effects (update E m s) =
     effects (update_for E m (CRATES E) s) @
       [StateCall ''update'' [uri_path m, getValue m],
        SetModelMarkers (uri_path m) LANGUAGE_ID (diagnostics E (uri_path m) (getValue m))]"
  by (simp add: update_def Let_def)

lemma cachedNames_update [simp]:
  "cachedNames (update E m s) = cachedNames (update_for E m (CRATES E) s)"
  by (simp add: update_def Let_def)

lemma grows_update_for_update: "grows (update_for E m (CRATES E) s) (update E m s)"
  by (rule growsI) (rule effects_update)

lemma grows_update [simp]: "grows s (update E m s)"
  by (rule grows_trans[OF grows_update_for grows_update_for_update])

lemma since_update:
  "since s (update E m s) =
     since s (update_for E m (CRATES E) s) @
       [StateCall ''update'' [uri_path m, getValue m],
        SetModelMarkers (uri_path m) LANGUAGE_ID (diagnostics E (uri_path m) (getValue m))]"
  using grows_since_trans[OF grows_update_for grows_update_for_update, of s E m]
  by (simp add: since_append[OF effects_update])

subsection \<open>The status of a crate never goes down\<close>

lemma rank_update_crate:
  "rank (cachedNames s c) \<le> rank (cachedNames (update_crate E m crate s) c)"
proof -
  have "cachedNames s crate \<noteq> Some Full \<Longrightarrow> cachedNames s crate \<noteq> Some Empty \<Longrightarrow>
      cachedNames s crate = None"
    by (cases "cachedNames s crate" rule: rank.cases) auto
  then show ?thesis
    by (auto simp: update_crate_def Let_def rank_loadDependency(1))
qed

lemma rank_update_for:
  "rank (cachedNames s c) \<le> rank (cachedNames (update_for E m crates s) c)"
proof (induction crates arbitrary: s)
  case Nil
  show ?case by simp
next
  case (Cons crate crates)
  show ?case
    using order_trans[OF rank_update_crate Cons] by simp
qed




subsection \<open>What a loaded crate needs is loaded\<close>

lemma closed_except_ingested:
  assumes "closed_except E P s"
  shows "closed_except E (insert name P) (ingested E name s)"
  using assms unfolding closed_except_def by (auto split: if_splits)

lemma closed_except_done:
  assumes "closed_except E (insert name P) s'"
    and "\<forall>b \<in> set (needs E name). b \<in> set (CRATES E) \<longrightarrow> cachedNames s' b = Some Full"
  shows "closed_except E P s'"
  unfolding closed_except_def
proof (intro allI impI)
  fix a b
  assume h: "cachedNames s' a = Some Full \<and> a \<notin> P \<and> b \<in> set (needs E a) \<and> b \<in> set (CRATES E)"
  show "cachedNames s' b = Some Full"
  proof (cases "a = name")
    case True
    then show ?thesis using h assms(2) by blast
  next
    case False
    then have "a \<notin> insert name P" using h by simp
    then show ?thesis using h assms(1) unfolding closed_except_def by blast
  qed
qed

lemma closed_except_loadDependency:
  "\<forall>P. closed_except E P s \<longrightarrow> closed_except E P (loadDependency E name s)"
  "\<forall>P. closed_except E P s \<longrightarrow>
     closed_except E P (loadDependency_for E cs s) \<and>
     (\<forall>b \<in> set cs. b \<in> set (CRATES E) \<longrightarrow> cachedNames (loadDependency_for E cs s) b = Some Full)"
proof (induction E name s and E cs s rule: loadDependency_induct)
  case (load E name s)
  show ?case
  proof (cases "cachedNames s name = Some Full")
    case True
    then show ?thesis by (simp add: loadDependency_unfold)
  next
    case False
    show ?thesis
    proof (intro allI impI)
      fix P assume "closed_except E P s"
      then have "closed_except E (insert name P) (ingested E name s)"
        by (rule closed_except_ingested)
      with load[OF False]
      have "closed_except E (insert name P) (loadDependency E name s)"
        and "\<forall>b \<in> set (needs E name). b \<in> set (CRATES E) \<longrightarrow>
               cachedNames (loadDependency E name s) b = Some Full"
        using False by (simp_all add: loadDependency_unfold)
      then show "closed_except E P (loadDependency E name s)"
        by (rule closed_except_done)
    qed
  qed
next
  case (nil E s)
  show ?case by simp
next
  case (cons E crate rest s)
  let ?s1 = "if crate \<in> set (CRATES E) then loadDependency E crate s else s"
  show ?case
  proof (intro allI impI)
    fix P assume P: "closed_except E P s"
    have 1: "closed_except E P ?s1" using cons(1) P by auto
    with cons(2) have 2: "closed_except E P (loadDependency_for E rest ?s1)"
      and 3: "\<forall>b \<in> set rest. b \<in> set (CRATES E) \<longrightarrow>
                cachedNames (loadDependency_for E rest ?s1) b = Some Full"
      by blast+
    have 4: "crate \<in> set (CRATES E) \<Longrightarrow> cachedNames (loadDependency_for E rest ?s1) crate = Some Full"
      by (simp add: Full_kept(2) loadDependency_Full)
    show "closed_except E P (loadDependency_for E (crate # rest) s) \<and>
       (\<forall>b \<in> set (crate # rest). b \<in> set (CRATES E) \<longrightarrow>
          cachedNames (loadDependency_for E (crate # rest) s) b = Some Full)"
      using 2 3 4 by auto
  qed
qed

lemma closed_except_update_crate:
  assumes "closed_except E P s"
  shows "closed_except E P (update_crate E m crate s)"
proof -
  have reg: "closed_except E P (cachedNames_set crate Empty (perform e s))"
    if "cachedNames s crate \<noteq> Some Full" for e
    using assms that unfolding closed_except_def by (auto split: if_splits)
  show ?thesis
    using assms reg closed_except_loadDependency(1)[of E s crate]
    by (auto simp: update_crate_def Let_def)
qed

lemma closed_except_update_for:
  "closed_except E P s \<Longrightarrow> closed_except E P (update_for E m crates s)"
  by (induction crates arbitrary: s) (simp_all add: closed_except_update_crate)

lemma closed_except_update:
  "closed_except E P s \<Longrightarrow> closed_except E P (update E m s)"
  using closed_except_update_for[of E P s m "CRATES E"]
  by (simp add: closed_except_def)

lemma closed_except_run_ops:
  "closed_except E P s \<Longrightarrow> closed_except E P (run_ops E ops s)"
proof (induction ops arbitrary: s)
  case Nil
  then show ?case by simp
next
  case (Cons x ops)
  have "closed_except E P (run_op E x s)"
    using Cons.prems closed_except_update closed_except_loadDependency(1)[of E s]
    by (cases x) auto
  then show ?case using Cons.IH by simp
qed

lemma closed_except_new_session: "closed_except E P new_session"
  by (simp add: closed_except_def new_session_def)

subsection \<open>The work of one call is bounded\<close>

lemma length_ingests: "length (concat (map (ingest E) ns)) = 3 * length ns"
  by (induction ns) (simp_all add: ingest_def)

lemma loads_bound:
  assumes "loads E s ns s'" "set ns \<subseteq> insert name (set (CRATES E))"
  shows "length ns \<le> unfull E s + 1"
proof -
  let ?X = "{c \<in> set (CRATES E). cachedNames s c \<noteq> Some Full}"
  have d: "distinct ns" and n: "\<forall>c \<in> set ns. cachedNames s c \<noteq> Some Full"
    using assms(1) by (simp_all add: loads_def)
  have "set ns \<subseteq> insert name ?X" using assms(2) n by auto
  then have "card (set ns) \<le> card (insert name ?X)" by (intro card_mono) auto
  also have "\<dots> \<le> card ?X + 1" by (simp add: card_insert_if)
  finally show ?thesis using d by (simp add: distinct_card unfull_def)
qed

text \<open>
  C3. \<^verbatim>\<open>loadDependency\<close> is a total function: no call of it recurses forever,
  whatever the analyzer returns as needed crates, cycles included. In every state
  that a session reaches, a call for \<open>A\<close> leaves \<open>A\<close> marked \<open>Full\<close>, and with
  it every crate \<open>B\<close> of \<open>CRATES\<close> that \<open>A\<close> needs (so both crates of a cycle
  between \<open>A\<close> and \<open>B\<close>). The call performs at most three effects (two fetches
  and one analyzer call) for \<open>A\<close> and for every crate of \<open>CRATES\<close> that was not
  yet \<open>Full\<close>.
\<close>

theorem loadDependency_cycle:
  assumes "B \<in> set (needs E A)" and "B \<in> set (CRATES E)"
  shows "cachedNames (loadDependency E A (run_ops E ops new_session)) A = Some Full
    \<and> cachedNames (loadDependency E A (run_ops E ops new_session)) B = Some Full
    \<and> length (since (run_ops E ops new_session) (loadDependency E A (run_ops E ops new_session)))
        \<le> 3 * (unfull E (run_ops E ops new_session) + 1)"
proof -
  let ?s = "run_ops E ops new_session"
  let ?s' = "loadDependency E A ?s"
  have A: "cachedNames ?s' A = Some Full" by (rule loadDependency_Full)
  have "closed_except E {} ?s"
    by (rule closed_except_run_ops) (rule closed_except_new_session)
  then have "closed_except E {} ?s'"
    using closed_except_loadDependency(1) by blast
  then have B: "cachedNames ?s' B = Some Full"
    using A assms unfolding closed_except_def by blast
  obtain ns where ns: "loads E ?s ns ?s'" and sub: "set ns \<subseteq> insert A (set (CRATES E))"
    using loadDependency_loads(1) by blast
  have "length (since ?s ?s') = 3 * length ns"
    by (simp add: loads_since[OF ns] length_ingests)
  also have "\<dots> \<le> 3 * (unfull E ?s + 1)"
    using loads_bound[OF ns sub] by simp
  finally show ?thesis using A B by blast
qed

subsection \<open>One update\<close>

lemma Full_kept_update_crate:
  "cachedNames s c = Some Full \<Longrightarrow> cachedNames (update_crate E m crate s) c = Some Full"
  using rank_update_crate[of s c E m crate] by (simp add: rank_ge_Full)

lemma Full_kept_update_for:
  "cachedNames s c = Some Full \<Longrightarrow> cachedNames (update_for E m crates s) c = Some Full"
  using rank_update_for[of s c E m crates] by (simp add: rank_ge_Full)

lemma became_Full_add:
  assumes "cachedNames s c = Some Full \<Longrightarrow> cachedNames s1 c = Some Full"
    and "cachedNames s1 c = Some Full \<Longrightarrow> cachedNames s2 c = Some Full"
  shows "(if became_Full s s1 c then 1 else 0) + (if became_Full s1 s2 c then 1 else 0)
     = (if became_Full s s2 c then 1 else (0::nat))"
  using assms by (auto simp: became_Full_def)

lemma update_crate_cases:
  obtains (skip) "update_crate E m crate s = s"
  | (load) "update_crate E m crate s = loadDependency E crate s"
  | (register) "update_crate E m crate s =
        cachedNames_set crate Empty (perform (StateCall ''loadDependency'' [crate]) s)"
      "cachedNames s crate = None" "\<not> regexp_test (crate @ ''::'') (getValue m)"
proof (cases "cachedNames s crate = Some Full")
  case True
  then have "update_crate E m crate s = s" by (simp add: update_crate_def)
  then show ?thesis by (rule skip)
next
  case nf: False
  show ?thesis
  proof (cases "regexp_test (crate @ ''::'') (getValue m)")
    case True
    then have "update_crate E m crate s = loadDependency E crate s"
      using nf by (simp add: update_crate_def)
    then show ?thesis by (rule load)
  next
    case nu: False
    show ?thesis
    proof (cases "cachedNames s crate = Some Empty")
      case True
      then have "update_crate E m crate s = s" using nu by (simp add: update_crate_def)
      then show ?thesis by (rule skip)
    next
      case False
      then have none: "cachedNames s crate = None"
        using nf by (cases "cachedNames s crate" rule: rank.cases) auto
      then have "update_crate E m crate s =
          cachedNames_set crate Empty (perform (StateCall ''loadDependency'' [crate]) s)"
        using nu by (simp add: update_crate_def)
      then show ?thesis using none nu by (rule register)
    qed
  qed
qed

lemma update_crate_count:
  assumes "counts_ingest E c P"
  shows "length (filter P (since s (update_crate E m crate s)))
     = (if became_Full s (update_crate E m crate s) c then 1 else 0)"
proof (cases rule: update_crate_cases[of E m crate s])
  case skip
  then show ?thesis by (simp add: became_Full_def)
next
  case load
  then show ?thesis using loadDependency_count[OF assms, of s crate] by simp
next
  case register
  have "\<not> P (StateCall ''loadDependency'' [crate])"
    using assms by (simp add: counts_ingest_def)
  then show ?thesis using register(1) by (simp add: became_Full_def)
qed

lemma update_for_count:
  assumes "counts_ingest E c P"
  shows "length (filter P (since s (update_for E m crates s)))
     = (if became_Full s (update_for E m crates s) c then 1 else 0)"
proof (induction crates arbitrary: s)
  case Nil
  show ?case by (simp add: became_Full_def)
next
  case (Cons crate crates)
  let ?s1 = "update_crate E m crate s"
  let ?s2 = "update_for E m crates ?s1"
  have "since s ?s2 = since s ?s1 @ since ?s1 ?s2"
    by (rule grows_since_trans) simp_all
  then have "length (filter P (since s ?s2))
      = (if became_Full s ?s1 c then 1 else 0) + (if became_Full ?s1 ?s2 c then 1 else 0)"
    using update_crate_count[OF assms, of s m crate] Cons[of ?s1] by simp
  also have "\<dots> = (if became_Full s ?s2 c then 1 else 0)"
    by (rule became_Full_add) (simp_all add: Full_kept_update_crate Full_kept_update_for)
  finally show ?case by simp
qed

lemma update_count:
  assumes "counts_ingest E c P"
  shows "length (filter P (since s (update E m s)))
     = (if became_Full s (update E m s) c then 1 else 0)"
  using update_for_count[OF assms, of s m "CRATES E"] assms
  by (simp add: since_update counts_ingest_def became_Full_def)

lemma update_crate_uses_Full:
  "regexp_test (crate @ ''::'') (getValue m) \<Longrightarrow>
     cachedNames (update_crate E m crate s) crate = Some Full"
  by (simp add: update_crate_def Let_def loadDependency_Full)

lemma update_for_uses_Full:
  "crate \<in> set crates \<Longrightarrow> regexp_test (crate @ ''::'') (getValue m) \<Longrightarrow>
     cachedNames (update_for E m crates s) crate = Some Full"
proof (induction crates arbitrary: s)
  case Nil
  then show ?case by simp
next
  case (Cons x crates)
  show ?case
  proof (cases "x = crate")
    case True
    then show ?thesis
      using Cons.prems(2) by (simp add: Full_kept_update_for update_crate_uses_Full)
  next
    case False
    then show ?thesis using Cons by simp
  qed
qed

lemma update_crate_registers_none:
  "regexp_test (c @ ''::'') (getValue m) \<Longrightarrow>
     filter (is_register c) (since s (update_crate E m crate s)) = []"
  by (auto simp: update_crate_def Let_def loadDependency_registers)

lemma update_for_registers_none:
  "regexp_test (c @ ''::'') (getValue m) \<Longrightarrow>
     filter (is_register c) (since s (update_for E m crates s)) = []"
proof (induction crates arbitrary: s)
  case Nil
  show ?case by simp
next
  case (Cons crate crates)
  let ?s1 = "update_crate E m crate s"
  have "since s (update_for E m crates ?s1) = since s ?s1 @ since ?s1 (update_for E m crates ?s1)"
    by (rule grows_since_trans) simp_all
  then show ?case
    using Cons.IH[OF Cons.prems, of ?s1] update_crate_registers_none[OF Cons.prems, of s E crate]
    by simp
qed

lemma loadDependency_for_fold:
  "loadDependency_for E cs s =
     fold (loadDependency E) (filter (\<lambda>c. c \<in> set (CRATES E)) cs) s"
  by (induction cs arbitrary: s) simp_all

text \<open>
  C5. Let \<open>foo\<close> be a crate of \<open>CRATES\<close> that is not \<open>Full\<close>, and let the text
  of the model contain \<open>foo::\<close> (as it does when it contains \<open>foo::bar\<close>). Then
  \<^verbatim>\<open>update\<close> leaves \<open>foo\<close> marked \<open>Full\<close>; among the effects of this update
  there is exactly one analyzer call \<^verbatim>\<open>loadDependency(foo, code, manifest)\<close>
  and exactly one fetch of each of the two files of \<open>foo\<close>, and no registration
  of \<open>foo\<close> as an empty crate. Wherever \<open>foo\<close> is ingested, the call goes on
  with one recursive call for each crate of \<open>CRATES\<close> among the crates the
  analyzer returned, in their order; after the update these crates are \<open>Full\<close>.
\<close>

theorem update_loads_used_crate:
  assumes "foo \<in> set (CRATES E)"
    and "cachedNames s foo \<noteq> Some Full"
    and "regexp_test (foo @ ''::'') (getValue m)"
  shows "cachedNames (update E m s) foo = Some Full
    \<and> length (filter (is_ingest foo) (since s (update E m s))) = 1
    \<and> count_list (since s (update E m s)) (FetchText (''/crates/'' @ foo @ ''.rs'')) = 1
    \<and> count_list (since s (update E m s)) (FetchText (''/crates/'' @ foo @ ''.toml'')) = 1
    \<and> filter (is_register foo) (since s (update E m s)) = []
    \<and> (\<forall>t. cachedNames t foo \<noteq> Some Full \<longrightarrow>
          loadDependency E foo t =
            fold (loadDependency E) (filter (\<lambda>c. c \<in> set (CRATES E)) (needs E foo))
              (ingested E foo t))
    \<and> (\<forall>b \<in> set (needs E foo). b \<in> set (CRATES E) \<longrightarrow>
          cachedNames (update E m s) b = Some Full)"
proof -
  let ?s' = "update E m s"
  have full: "cachedNames ?s' foo = Some Full"
    using assms(1,3) by (simp add: update_for_uses_Full)
  then have b: "became_Full s ?s' foo" using assms(2) by (simp add: became_Full_def)
  have 1: "length (filter (is_ingest foo) (since s ?s')) = 1"
    using update_count[OF counts_ingest_is_ingest, of foo s E m] b by simp
  have 2: "count_list (since s ?s') (FetchText (''/crates/'' @ foo @ ''.rs'')) = 1"
    using update_count[OF counts_ingest_rs, of foo s E m] b
    by (simp add: count_list_eq_length_filter)
  have 3: "count_list (since s ?s') (FetchText (''/crates/'' @ foo @ ''.toml'')) = 1"
    using update_count[OF counts_ingest_toml, of foo s E m] b
    by (simp add: count_list_eq_length_filter)
  have 4: "filter (is_register foo) (since s ?s') = []"
    using update_for_registers_none[OF assms(3), of s E "CRATES E"]
    by (simp add: since_update)
  have 5: "\<forall>t. cachedNames t foo \<noteq> Some Full \<longrightarrow>
      loadDependency E foo t =
        fold (loadDependency E) (filter (\<lambda>c. c \<in> set (CRATES E)) (needs E foo)) (ingested E foo t)"
    by (simp add: loadDependency_unfold loadDependency_for_fold)
  have "closed_except E {a. cachedNames s a = Some Full} s"
    by (auto simp: closed_except_def)
  then have "closed_except E {a. cachedNames s a = Some Full} ?s'"
    by (rule closed_except_update)
  then have 6: "\<forall>b \<in> set (needs E foo). b \<in> set (CRATES E) \<longrightarrow> cachedNames ?s' b = Some Full"
    using full assms(2) unfolding closed_except_def by blast
  show ?thesis using full 1 2 3 4 5 6 by blast
qed

subsection \<open>An update of a text that uses no crate\<close>

lemma update_crate_no_use:
  assumes "\<not> regexp_test (crate @ ''::'') (getValue m)"
  shows "update_crate E m crate s =
     (if cachedNames s crate = None
      then cachedNames_set crate Empty (perform (StateCall ''loadDependency'' [crate]) s)
      else s)"
  using assms by (cases "cachedNames s crate" rule: rank.cases) (simp_all add: update_crate_def)

lemma update_for_no_use_cache:
  assumes "\<forall>crate \<in> set crates. \<not> regexp_test (crate @ ''::'') (getValue m)"
  shows "cachedNames (update_for E m crates s) =
     (\<lambda>c. if c \<in> set crates \<and> cachedNames s c = None then Some Empty else cachedNames s c)"
  using assms
proof (induction crates arbitrary: s)
  case Nil
  show ?case by simp
next
  case (Cons crate crates)
  then have nu: "\<not> regexp_test (crate @ ''::'') (getValue m)"
    and rest: "\<forall>crate \<in> set crates. \<not> regexp_test (crate @ ''::'') (getValue m)" by simp_all
  show ?case
    by (auto simp: Cons.IH[OF rest] update_crate_no_use[OF nu] fun_eq_iff)
qed

lemma update_for_no_use_registers:
  assumes "\<forall>crate \<in> set crates. \<not> regexp_test (crate @ ''::'') (getValue m)"
  shows "length (filter (is_register c) (since s (update_for E m crates s))) =
     (if c \<in> set crates \<and> cachedNames s c = None then 1 else 0)"
  using assms
proof (induction crates arbitrary: s)
  case Nil
  show ?case by simp
next
  case (Cons crate crates)
  then have nu: "\<not> regexp_test (crate @ ''::'') (getValue m)"
    and rest: "\<forall>crate \<in> set crates. \<not> regexp_test (crate @ ''::'') (getValue m)" by simp_all
  let ?s1 = "update_crate E m crate s"
  have split: "since s (update_for E m crates ?s1) = since s ?s1 @ since ?s1 (update_for E m crates ?s1)"
    by (rule grows_since_trans) simp_all
  have 1: "length (filter (is_register c) (since s ?s1)) =
      (if c = crate \<and> cachedNames s c = None then 1 else 0)"
    by (auto simp: update_crate_no_use[OF nu])
  have 2: "length (filter (is_register c) (since ?s1 (update_for E m crates ?s1))) =
      (if c \<in> set crates \<and> cachedNames ?s1 c = None then 1 else 0)"
    by (rule Cons.IH[OF rest])
  have 3: "cachedNames ?s1 c = None \<longleftrightarrow> cachedNames s c = None \<and> c \<noteq> crate"
    by (auto simp: update_crate_no_use[OF nu])
  show ?case using 1 2 3 by (auto simp: split)
qed

lemma update_for_no_use_only_registers:
  assumes "\<forall>crate \<in> set crates. \<not> regexp_test (crate @ ''::'') (getValue m)"
  shows "filter (\<lambda>e. \<not> is_registration e) (since s (update_for E m crates s)) = []"
  using assms
proof (induction crates arbitrary: s)
  case Nil
  show ?case by simp
next
  case (Cons crate crates)
  then have nu: "\<not> regexp_test (crate @ ''::'') (getValue m)"
    and rest: "\<forall>crate \<in> set crates. \<not> regexp_test (crate @ ''::'') (getValue m)" by simp_all
  let ?s1 = "update_crate E m crate s"
  have split: "since s (update_for E m crates ?s1) = since s ?s1 @ since ?s1 (update_for E m crates ?s1)"
    by (rule grows_since_trans) simp_all
  have 1: "filter (\<lambda>e. \<not> is_registration e) (since s ?s1) = []"
    by (auto simp: update_crate_no_use[OF nu])
  show ?case using 1 Cons.IH[OF rest, of ?s1] by (simp add: split)
qed

text \<open>
  C6. Let the text of the model contain \<open>crate::\<close> for no crate of \<open>CRATES\<close>.
  Then \<^verbatim>\<open>update\<close> marks \<open>Empty\<close> exactly the crates of \<open>CRATES\<close> that are
  not in the cache, which on the first run are all of them, and calls
  \<^verbatim>\<open>state.loadDependency(crate)\<close> once for each of them; a crate that is
  \<open>Full\<close> or \<open>Empty\<close> keeps its status and no such call is made for it. Beside
  these calls the update performs the diagnostics request and the setting of the
  markers, and nothing else: no fetch, no ingestion.
\<close>

theorem update_without_usage:
  assumes "\<forall>crate \<in> set (CRATES E). \<not> regexp_test (crate @ ''::'') (getValue m)"
  shows "cachedNames (update E m s) =
      (\<lambda>c. if c \<in> set (CRATES E) \<and> cachedNames s c = None then Some Empty else cachedNames s c)
    \<and> (\<forall>c. length (filter (is_register c) (since s (update E m s))) =
          (if c \<in> set (CRATES E) \<and> cachedNames s c = None then 1 else 0))
    \<and> filter (\<lambda>e. \<not> is_registration e) (since s (update E m s)) =
        [StateCall ''update'' [uri_path m, getValue m],
         SetModelMarkers (uri_path m) LANGUAGE_ID (diagnostics E (uri_path m) (getValue m))]
    \<and> cachedNames (update E m new_session) =
        (\<lambda>c. if c \<in> set (CRATES E) then Some Empty else None)"
proof -
  have 1: "cachedNames (update E m s) =
      (\<lambda>c. if c \<in> set (CRATES E) \<and> cachedNames s c = None then Some Empty else cachedNames s c)" for s
    by (simp add: update_for_no_use_cache[OF assms])
  have 2: "\<forall>c. length (filter (is_register c) (since s (update E m s))) =
          (if c \<in> set (CRATES E) \<and> cachedNames s c = None then 1 else 0)"
    by (simp add: since_update update_for_no_use_registers[OF assms])
  have 3: "filter (\<lambda>e. \<not> is_registration e) (since s (update E m s)) =
        [StateCall ''update'' [uri_path m, getValue m],
         SetModelMarkers (uri_path m) LANGUAGE_ID (diagnostics E (uri_path m) (getValue m))]"
    by (simp add: since_update update_for_no_use_only_registers[OF assms])
  have 4: "cachedNames (update E m new_session) =
        (\<lambda>c. if c \<in> set (CRATES E) then Some Empty else None)"
    unfolding 1[of new_session] by (auto simp: new_session_def fun_eq_iff)
  show ?thesis using 1 2 3 4 by blast
qed

subsection \<open>The order of the effects of an update\<close>

lemma update_for_append:
  "update_for E m (xs @ ys) s = update_for E m ys (update_for E m xs s)"
  by (induction xs arbitrary: s) simp_all

lemma update_for_take_Suc:
  assumes "k < length crates"
  shows "update_for E m (take (Suc k) crates) s =
     update_crate E m (crates ! k) (update_for E m (take k crates) s)"
  by (simp add: take_Suc_conv_app_nth[OF assms] update_for_append)






subsection \<open>The test for a usage\<close>

lemma take_length_eq: "take (length pat) str = pat \<longleftrightarrow> (\<exists>b. str = pat @ b)"
  by (metis append_eq_conv_conj append_take_drop_id)

lemma regexp_test_iff: "regexp_test pat str \<longleftrightarrow> (\<exists>a b. str = a @ pat @ b)"
proof (induction str)
  case Nil
  show ?case by auto
next
  case (Cons ch str)
  have "(\<exists>a b. ch # str = a @ pat @ b) \<longleftrightarrow>
      (\<exists>b. ch # str = pat @ b) \<or> (\<exists>a b. str = a @ pat @ b)"
  proof
    assume "\<exists>a b. ch # str = a @ pat @ b"
    then obtain a b where ab: "ch # str = a @ pat @ b" by blast
    show "(\<exists>b. ch # str = pat @ b) \<or> (\<exists>a b. str = a @ pat @ b)"
    proof (cases a)
      case Nil
      then show ?thesis using ab by auto
    next
      case (Cons x a')
      then have "str = a' @ pat @ b" using ab by simp
      then show ?thesis by blast
    qed
  next
    assume "(\<exists>b. ch # str = pat @ b) \<or> (\<exists>a b. str = a @ pat @ b)"
    then show "\<exists>a b. ch # str = a @ pat @ b"
    proof
      assume "\<exists>b. ch # str = pat @ b"
      then obtain b where "ch # str = [] @ pat @ b" by auto
      then show ?thesis by blast
    next
      assume "\<exists>a b. str = a @ pat @ b"
      then obtain a b where "ch # str = (ch # a) @ pat @ b" by auto
      then show ?thesis by blast
    qed
  qed
  then show ?case using Cons take_length_eq[of pat "ch # str"] by simp
qed

theorem loadDependency_cycle_witness:
  "''b'' \<in> set (needs cycle_env ''a'') \<and> ''a'' \<in> set (needs cycle_env ''b'')
   \<and> ''b'' \<in> set (CRATES cycle_env)
   \<and> cachedNames (loadDependency cycle_env ''a'' new_session) ''a'' = Some Full
   \<and> cachedNames (loadDependency cycle_env ''a'' new_session) ''b'' = Some Full
   \<and> length (since new_session (loadDependency cycle_env ''a'' new_session))
       \<le> 3 * (unfull cycle_env new_session + 1)"
  using loadDependency_cycle [of "''b''" cycle_env "''a''" "[]"]
  by (simp add: needs_def cycle_env_def)


theorem update_loads_used_crate_witness:
  "''a'' \<in> set (CRATES cycle_env)
   \<and> cachedNames new_session ''a'' \<noteq> Some Full
   \<and> regexp_test (''a'' @ ''::'') (getValue model_using_a)
   \<and> cachedNames (update cycle_env model_using_a new_session) ''a'' = Some Full
   \<and> length (filter (is_ingest ''a'') (since new_session (update cycle_env model_using_a new_session))) = 1
   \<and> cachedNames (update cycle_env model_using_a new_session) ''b'' = Some Full"
  using update_loads_used_crate [of "''a''" cycle_env new_session model_using_a]
  by (simp add: needs_def cycle_env_def new_session_def model_using_a_def)

theorem update_without_usage_witness:
  "\<not> regexp_test (''a'' @ ''::'') (getValue model_plain)
   \<and> \<not> regexp_test (''b'' @ ''::'') (getValue model_plain)
   \<and> \<not> regexp_test (''c'' @ ''::'') (getValue model_plain)
   \<and> cachedNames (update cycle_env model_plain new_session) ''a'' = Some Empty
   \<and> cachedNames (update cycle_env model_plain new_session) ''std'' = None
   \<and> length (filter (is_register ''b'') (since new_session (update cycle_env model_plain new_session))) = 1"
  using update_without_usage [of cycle_env model_plain new_session]
  by (simp add: cycle_env_def new_session_def model_plain_def)

subsection \<open>Worked examples\<close>

lemma update_example:
  "effects (update cycle_env model_using_a new_session) =
     [FetchText ''/crates/a.rs'', FetchText ''/crates/a.toml'',
      StateCall ''loadDependency'' [''a'', ''/crates/a.rs'', ''/crates/a.toml''],
      FetchText ''/crates/b.rs'', FetchText ''/crates/b.toml'',
      StateCall ''loadDependency'' [''b'', ''/crates/b.rs'', ''/crates/b.toml''],
      StateCall ''loadDependency'' [''c''],
      StateCall ''update'' [''/src/lib.rs'', ''use a::bar;''],
      SetModelMarkers ''/src/lib.rs'' ''rust'' 0]"
  by code_simp

lemma update_example_cache:
  "map (cachedNames (update cycle_env model_using_a new_session)) [''a'', ''b'', ''c'', ''std'']
     = [Some Full, Some Full, Some Empty, None]"
  by code_simp

lemma update_plain_example:
  "effects (update cycle_env model_plain new_session) =
     [StateCall ''loadDependency'' [''a''], StateCall ''loadDependency'' [''b''],
      StateCall ''loadDependency'' [''c''],
      StateCall ''update'' [''/src/lib.rs'', ''fn f() {}''],
      SetModelMarkers ''/src/lib.rs'' ''rust'' 0]"
  by code_simp

lemma channel_example:
  "resolved (run (createWorker :: (nat, nat, nat) channel)
      [Call ''hover'' [1] 10, Call ''rename'' [2] 20, Message (IdNum 2) 200,
       Message RaWorkerReady 0, Message (IdNum 1) 100, Message (IdNum 2) 201])
     = [(20, 200), (10, 100)]"
  by code_simp

end
